theory Spec2Isabelle
  imports Complex_Main "HOL-Library.Char_ord" "HOL-Library.List_Lexorder"
begin

section \<open>Funnel deduplication: the \<open>Deduplication\<close> class of \<open>app/deduplicate.py\<close>\<close>

text \<open>
  The engine is one method, \<open>deduplicate_records(df, dedup_config)\<close>, with a helper
  \<open>_log_formation\<close>. It works on a pandas DataFrame. The embedding fixes the following
  reading of the library calls the source makes.

  \<^item> A frame is its list of column labels and its list of rows; a row maps a label to a
    cell. The frame carries the default index, so the label of a row is its position (the
    method uses the index only to tell rows apart, so any index without repeated labels
    gives the same rows). The column labels of the caller's frame are pairwise distinct
    (a row is a mapping).
  \<^item> A cell is an integer, a string, \<open>None\<close> or \<open>NaN\<close>. Floating-point cells are not
    represented.
  \<^item> The method assigns columns of \<open>df\<close> in place, so the frame the caller holds changes.
    The model returns the caller's frame after the call next to the result.
  \<^item> The run statistics and the log events are computed for logging only; the model keeps
    of them the one thing that reaches the caller, the comparison
    \<open>threshold_for_removing > 1\<close>, which raises on a missing threshold.
  \<^item> The frames \<open>_log_formation\<close> builds may repeat a column label
    (\<open>keys + flag_cols + ['STAGE', '_score']\<close>), so their rows are association lists.
\<close>

subsection \<open>Cells and strings\<close>

datatype val = VInt int | VStr string | VNone | VNaN

definition digit_char :: "nat \<Rightarrow> char" where
  "digit_char d = char_of (48 + d)"

fun str_nat :: "nat \<Rightarrow> string" where
  "str_nat n = (if n < 10 then [digit_char n] else str_nat (n div 10) @ [digit_char (n mod 10)])"

declare str_nat.simps [simp del]

definition str_int :: "int \<Rightarrow> string" where
  "str_int i = (if i < 0 then CHR ''-'' # str_nat (nat (- i)) else str_nat (nat i))"

text \<open>\<open>astype(str)\<close> on one cell.\<close>

fun astype_str :: "val \<Rightarrow> string" where
  "astype_str (VInt i) = str_int i"
| "astype_str (VStr s) = s"
| "astype_str VNone = ''None''"
| "astype_str VNaN = ''nan''"

text \<open>
  \<open>str.strip()\<close> removes leading and trailing whitespace. A character is read as the
  code point of its byte; the whitespace code points below 256 are the ones listed.
\<close>

definition is_space :: "char \<Rightarrow> bool" where
  "is_space c = ((of_char c :: nat) \<in> {9, 10, 11, 12, 13, 28, 29, 30, 31, 32, 133, 160})"

definition strip :: "string \<Rightarrow> string" where
  "strip s = rev (dropWhile is_space (rev (dropWhile is_space s)))"

fun join :: "string \<Rightarrow> string list \<Rightarrow> string" where
  "join sep [] = []"
| "join sep [x] = x"
| "join sep (x # y # ys) = x @ sep @ join sep (y # ys)"

subsection \<open>Frames, configuration, errors\<close>

type_synonym row = "string \<rightharpoonup> val"

record dataframe =
  columns :: "string list"
  rows :: "row list"

text \<open>A label of the frame that a row does not bind reads as a missing value.\<close>

definition cell :: "row \<Rightarrow> string \<Rightarrow> val" where
  "cell r c = (case r c of None \<Rightarrow> VNaN | Some v \<Rightarrow> v)"

text \<open>
  \<open>dedup_config\<close> is a dictionary. \<open>None\<close> stands for a falsy configuration (\<open>None\<close> or
  \<open>{}\<close>); in a non-empty one each of the four entries may still be absent, and the source
  reads it with \<open>.get\<close>.
\<close>

record config =
  keys :: "string list option"
  flags :: "(string \<rightharpoonup> string) option"
  funnel_priority :: "string list option"
  threshold_for_removing :: "rat option"

text \<open>\<open>dedup_config.get('keys', [])\<close> and its two siblings.\<close>

definition get_keys :: "config \<Rightarrow> string list" where
  "get_keys c = (case keys c of None \<Rightarrow> [] | Some k \<Rightarrow> k)"

definition get_flags :: "config \<Rightarrow> (string \<rightharpoonup> string)" where
  "get_flags c = (case flags c of None \<Rightarrow> Map.empty | Some f \<Rightarrow> f)"

definition get_funnel_priority :: "config \<Rightarrow> string list" where
  "get_funnel_priority c = (case funnel_priority c of None \<Rightarrow> [] | Some p \<Rightarrow> p)"

datatype error =
    ValueError string "string list"
  | KeyError "string list"
  | TypeError

type_synonym arow = "(string \<times> val) list"

subsection \<open>Whitespace removing (line 23)\<close>

definition strip_row :: "string list \<Rightarrow> row \<Rightarrow> row" where
  "strip_row ks r = (\<lambda>c. if c \<in> set ks then Some (VStr (strip (astype_str (cell r c)))) else r c)"

definition strip_keys :: "string list \<Rightarrow> dataframe \<Rightarrow> dataframe" where
  "strip_keys ks df = df\<lparr>rows := map (strip_row ks) (rows df)\<rparr>"

subsection \<open>Column assignment, column drop, row selection\<close>

definition set_column :: "string \<Rightarrow> (row \<Rightarrow> val) \<Rightarrow> dataframe \<Rightarrow> dataframe" where
  "set_column name f df =
     \<lparr>columns = (if name \<in> set (columns df) then columns df else columns df @ [name]),
      rows = map (\<lambda>r. r(name \<mapsto> f r)) (rows df)\<rparr>"

definition drop_row :: "string list \<Rightarrow> row \<Rightarrow> row" where
  "drop_row cs r = (\<lambda>c. if c \<in> set cs then None else r c)"

definition drop_columns :: "string list \<Rightarrow> dataframe \<Rightarrow> dataframe" where
  "drop_columns cs df =
     \<lparr>columns = filter (\<lambda>c. c \<notin> set cs) (columns df),
      rows = map (drop_row cs) (rows df)\<rparr>"

definition loc_mask :: "bool list \<Rightarrow> 'a list \<Rightarrow> 'a list" where
  "loc_mask msk xs = map snd (filter fst (zip msk xs))"

subsection \<open>Stage derivation (lines 26 to 49)\<close>

definition row_get :: "row \<Rightarrow> string option \<Rightarrow> val option" where
  "row_get r col = (case col of None \<Rightarrow> None | Some c \<Rightarrow> r c)"

definition derive_stage ::
  "string option \<Rightarrow> string option \<Rightarrow> string option \<Rightarrow> string option \<Rightarrow> row \<Rightarrow> string option" where
  "derive_stage col_apply col_admit col_commit col_enroll r =
     (if row_get r col_enroll = Some (VInt 1) then Some ''ENROLL''
      else if row_get r col_commit = Some (VInt 1) then Some ''COMMIT''
      else if row_get r col_admit = Some (VInt 1) then Some ''ADMIT''
      else if row_get r col_apply = Some (VInt 1) then Some ''APPLY''
      else None)"

text \<open>The closure \<open>derive_stage\<close> with the four columns it captures from \<open>flags\<close>.\<close>

definition stage_of :: "(string \<rightharpoonup> string) \<Rightarrow> row \<Rightarrow> string option" where
  "stage_of fl r = derive_stage (fl ''APPLY'') (fl ''ADMIT'') (fl ''COMMIT'') (fl ''ENROLL'') r"

definition stage_val :: "string option \<Rightarrow> val" where
  "stage_val s = (case s of None \<Rightarrow> VNone | Some l \<Rightarrow> VStr l)"

subsection \<open>Priority (lines 52 and 53)\<close>

text \<open>
  The dictionary comprehension stores one entry per element of \<open>funnel_priority\<close>, in
  order, so a later entry of the same stage replaces an earlier one.
\<close>

definition score_map :: "string list \<Rightarrow> (string \<rightharpoonup> int)" where
  "score_map fp =
     fold (\<lambda>(i, stage) m. m(stage \<mapsto> int (length fp) - int i)) (enumerate 0 fp) Map.empty"

text \<open>\<open>.map(score_map).fillna(0).astype(int)\<close> on one cell of the \<open>STAGE\<close> column.\<close>

definition score_cell :: "string list \<Rightarrow> val \<Rightarrow> int" where
  "score_cell fp v =
     (case v of
        VStr s \<Rightarrow> (case score_map fp s of None \<Rightarrow> 0 | Some n \<Rightarrow> n)
      | _ \<Rightarrow> 0)"

subsection \<open>Duplicate groups and survivors (lines 56 to 74)\<close>

definition key_tuple :: "string list \<Rightarrow> row \<Rightarrow> val list" where
  "key_tuple ks r = map (cell r) ks"

text \<open>\<open>duplicated(keep=False)\<close>: a row is marked when its key tuple occurs more than once.\<close>

definition duplicated :: "'a list \<Rightarrow> bool list" where
  "duplicated kts = map (\<lambda>k. 1 < count_list kts k) kts"

definition int_cell :: "row \<Rightarrow> string \<Rightarrow> int" where
  "int_cell r c = (case r c of Some (VInt n) \<Rightarrow> n | _ \<Rightarrow> 0)"

text \<open>\<open>idxmax\<close> of one group: the label of the first row that holds the maximum.\<close>

fun idxmax :: "(nat \<times> int) list \<Rightarrow> nat option" where
  "idxmax [] = None"
| "idxmax (x # xs) = Some (fst (fold (\<lambda>y b. if snd b < snd y then y else b) xs x))"

text \<open>
  \<open>df.loc[dup_mask].groupby(keys, dropna=False)['_score'].idxmax()\<close>: the groups come in
  the sorted order of their keys, which are tuples of strings.
\<close>

definition keep_idx_of :: "string list \<Rightarrow> bool list \<Rightarrow> row list \<Rightarrow> nat list" where
  "keep_idx_of ks dup_mask rs =
     (let sub = filter (\<lambda>i. dup_mask ! i) [0..<length rs];
          groups = sort_key (map astype_str) (remdups (map (\<lambda>i. key_tuple ks (rs ! i)) sub))
      in List.map_filter
           (\<lambda>g. idxmax (map (\<lambda>i. (i, int_cell (rs ! i) ''_score''))
                           (filter (\<lambda>i. key_tuple ks (rs ! i) = g) sub)))
           groups)"

subsection \<open>The audit frame (\<open>_log_formation\<close>, lines 105 to 128)\<close>

definition loc_cols :: "string list \<Rightarrow> row \<Rightarrow> arow" where
  "loc_cols cs r = map (\<lambda>c. (c, cell r c)) cs"

text \<open>\<open>frame[labels]\<close>: for each label in turn, every column that carries it.\<close>

definition getitem :: "string list \<Rightarrow> arow \<Rightarrow> arow" where
  "getitem cs a = concat (map (\<lambda>c. filter (\<lambda>p. fst p = c) a) cs)"

definition setitem :: "string \<Rightarrow> val \<Rightarrow> arow \<Rightarrow> arow" where
  "setitem c v a =
     (if c \<in> fst ` set a then map (\<lambda>p. if fst p = c then (c, v) else p) a else a @ [(c, v)])"

definition acell :: "arow \<Rightarrow> string \<Rightarrow> val" where
  "acell a c = (case map_of a c of None \<Rightarrow> VNaN | Some v \<Rightarrow> v)"

definition merge_key :: "string list \<Rightarrow> arow \<Rightarrow> val" where
  "merge_key ks a = VStr (join ''||'' (map (\<lambda>p. astype_str (snd p)) (getitem ks a)))"

definition rename_kept :: "string \<Rightarrow> string" where
  "rename_kept c = (if c = ''STAGE'' then ''STAGE_kept''
                    else if c = ''_score'' then ''_score_kept'' else c)"

text \<open>
  \<open>merge(..., on='_merge_key', how='left')\<close>: every row of the left frame, in order, once
  for each row of the right frame with the same key, and once with missing values when
  there is none.
\<close>

definition merge_left :: "arow list \<Rightarrow> arow list \<Rightarrow> arow list" where
  "merge_left left right =
     concat (map (\<lambda>l.
       (case filter (\<lambda>r. acell r ''_merge_key'' = acell l ''_merge_key'') right of
          [] \<Rightarrow> [l @ [(''STAGE_kept'', VNaN), (''_score_kept'', VNaN)]]
        | ms \<Rightarrow> map (\<lambda>r. l @ filter (\<lambda>p. fst p \<noteq> ''_merge_key'') r) ms)) left)"

text \<open>Comparisons of two cells as the source's \<open>reason_fn\<close> makes them: a missing value
  is neither below nor equal to anything.\<close>

fun val_less :: "val \<Rightarrow> val \<Rightarrow> bool" where
  "val_less (VInt a) (VInt b) = (a < b)"
| "val_less _ _ = False"

fun val_eq :: "val \<Rightarrow> val \<Rightarrow> bool" where
  "val_eq (VInt a) (VInt b) = (a = b)"
| "val_eq _ _ = False"

definition reason_fn :: "arow \<Rightarrow> string" where
  "reason_fn r =
     (if val_less (acell r ''_score'') (acell r ''_score_kept'') then
        ''duplicate: lower-priority stage''
      else if val_eq (acell r ''_score'') (acell r ''_score_kept'') then
        ''duplicate: same stage, kept first''
      else ''duplicate'')"

definition log_formation ::
  "dataframe \<Rightarrow> bool list \<Rightarrow> string list \<Rightarrow> string list \<Rightarrow> nat list \<Rightarrow> arow list" where
  "log_formation df to_remove_mask ks flag_cols keep_idx =
     (let removed0 = map (loc_cols (ks @ flag_cols @ [''STAGE'', ''_score'']))
                         (loc_mask to_remove_mask (rows df));
          kept0 = map (\<lambda>i. loc_cols (ks @ [''STAGE'', ''_score'']) (rows df ! i)) keep_idx;
          removed1 = map (\<lambda>a. setitem ''_merge_key'' (merge_key ks a) a) removed0;
          kept1 = map (\<lambda>a. setitem ''_merge_key'' (merge_key ks a) a) kept0;
          right = map (\<lambda>a. map (\<lambda>p. (rename_kept (fst p), snd p))
                               (getitem [''_merge_key'', ''STAGE'', ''_score''] a)) kept1;
          removed2 = merge_left removed1 right;
          removed3 = map (\<lambda>a. setitem ''reason'' (VStr (reason_fn a)) a) removed2
      in map (getitem (ks @ [''STAGE'', ''STAGE_kept'', ''_score'', ''_score_kept'', ''reason'']))
             removed3)"

subsection \<open>\<open>deduplicate_records\<close> (lines 8 to 103)\<close>

definition truthy_cols :: "string option list \<Rightarrow> string list" where
  "truthy_cols cols = concat (map (\<lambda>col. case col of None \<Rightarrow> [] | Some c \<Rightarrow> if c = [] then [] else [c]) cols)"

text \<open>
  \<open>[col for col in [col_apply, col_admit, col_commit, col_enroll] if col]\<close>: the configured
  flag columns, without the absent and the empty ones.
\<close>

definition flag_cols_of :: "(string \<rightharpoonup> string) \<Rightarrow> string list" where
  "flag_cols_of fl = truthy_cols [fl ''APPLY'', fl ''ADMIT'', fl ''COMMIT'', fl ''ENROLL'']"

text \<open>The frame after lines 23, 49 and 53: key columns trimmed, \<open>STAGE\<close> and \<open>_score\<close> set.\<close>

definition staged :: "string list \<Rightarrow> (string \<rightharpoonup> string) \<Rightarrow> string list \<Rightarrow> dataframe \<Rightarrow> dataframe" where
  "staged ks fl fp df =
     (let df1 = strip_keys ks df;
          df2 = set_column ''STAGE'' (\<lambda>r. stage_val (stage_of fl r)) df1
      in set_column ''_score'' (\<lambda>r. VInt (score_cell fp (cell r ''STAGE''))) df2)"

text \<open>
  The first component of the result is the frame the caller passed, as it is after the
  call; the second is what the call returns or raises.
\<close>

definition deduplicate_records ::
  "dataframe \<Rightarrow> config option \<Rightarrow> dataframe \<times> (error + dataframe \<times> arow list)" where
  "deduplicate_records df dedup_config =
     (case dedup_config of
        None \<Rightarrow> (df, Inr (df, []))
      | Some c \<Rightarrow>
          let ks = get_keys c; fl = get_flags c; fp = get_funnel_priority c in
          if ks = [] then (df, Inl (ValueError ''keys are empty'' []))
          else if \<not> set ks \<subseteq> set (columns df) then
            (df, Inl (KeyError (filter (\<lambda>k. k \<notin> set (columns df)) ks)))
          else
            let df1 = strip_keys ks df;
                missing_cols = filter (\<lambda>c. c \<notin> set (columns df1)) (flag_cols_of fl)
            in
            if missing_cols \<noteq> [] then
              (df1, Inl (ValueError ''Dataset has no flag columns'' missing_cols))
            else
              let df3 = staged ks fl fp df;
                  dup_mask = duplicated (map (key_tuple ks) (rows df3))
              in
              if \<not> list_ex (\<lambda>b. b) dup_mask then
                (df3, Inr (drop_columns [''STAGE'', ''_score''] df3, []))
              else
                let keep_idx = keep_idx_of ks dup_mask (rows df3);
                    flag_cols = flag_cols_of fl;
                    to_remove_mask =
                      map (\<lambda>i. dup_mask ! i \<and> i \<notin> set keep_idx) [0..<length (rows df3)];
                    removed_log_df = log_formation df3 to_remove_mask ks flag_cols keep_idx;
                    d = drop_columns [''STAGE'', ''_score''] df3;
                    df_deduped = d\<lparr>rows := loc_mask (map Not to_remove_mask) (rows d)\<rparr>
                in
                (case threshold_for_removing c of
                   None \<Rightarrow> (df3, Inl TypeError)
                 | Some t \<Rightarrow> (df3, Inr (df_deduped, removed_log_df))))"

subsection \<open>Reading a result\<close>

definition returned :: "dataframe \<times> (error + dataframe \<times> arow list) \<Rightarrow> bool" where
  "returned res = (case snd res of Inl e \<Rightarrow> False | Inr p \<Rightarrow> True)"

definition deduped_of :: "dataframe \<times> (error + dataframe \<times> arow list) \<Rightarrow> dataframe" where
  "deduped_of res = (case snd res of Inl e \<Rightarrow> \<lparr>columns = [], rows = []\<rparr> | Inr p \<Rightarrow> fst p)"

definition audit_of :: "dataframe \<times> (error + dataframe \<times> arow list) \<Rightarrow> arow list" where
  "audit_of res = (case snd res of Inl e \<Rightarrow> [] | Inr p \<Rightarrow> snd p)"

subsection \<open>The vocabulary of the specification\<close>

text \<open>The normalized key values of an input record: its key cells as trimmed strings.\<close>

definition norm_key :: "config \<Rightarrow> row \<Rightarrow> val list" where
  "norm_key c r = map (\<lambda>k. VStr (strip (astype_str (cell r k)))) (get_keys c)"

text \<open>The fixed precedence of the stages, and "the flag column configured for a stage
  holds the value 1".\<close>

definition precedence :: "string list" where
  "precedence = [''ENROLL'', ''COMMIT'', ''ADMIT'', ''APPLY'']"

definition holds_one :: "(string \<rightharpoonup> string) \<Rightarrow> row \<Rightarrow> string \<Rightarrow> bool" where
  "holds_one fl r s = (case fl s of None \<Rightarrow> False | Some col \<Rightarrow> r col = Some (VInt 1))"

text \<open>The Priority Score of a derived stage, and of an input record.\<close>

definition priority :: "string list \<Rightarrow> string option \<Rightarrow> int" where
  "priority fp stage = score_cell fp (stage_val stage)"

definition record_score :: "config \<Rightarrow> row \<Rightarrow> int" where
  "record_score c r =
     priority (get_funnel_priority c) (stage_of (get_flags c) (strip_row (get_keys c) r))"

text \<open>
  Record \<open>i\<close> is the member of its group with the maximum score, and the first of those
  that tie for it. A record alone in its group is one.
\<close>

definition survivor :: "config \<Rightarrow> row list \<Rightarrow> nat \<Rightarrow> bool" where
  "survivor c rs i =
     list_all (\<lambda>j. norm_key c (rs ! j) = norm_key c (rs ! i) \<longrightarrow>
                   record_score c (rs ! j) < record_score c (rs ! i)
                   \<or> (record_score c (rs ! j) = record_score c (rs ! i) \<and> i \<le> j))
              [0..<length rs]"




text \<open>
  The labels the engine writes itself: \<open>STAGE\<close> and \<open>_score\<close> into the caller's frame,
  the others into the frames of \<open>_log_formation\<close>. A configuration is plain when its key
  list repeats no label and none of its key and flag columns carries one of these labels.
  Outside the plain configurations pandas builds frames with repeated labels and renames
  clashing columns on merge; what the source raises then is not followed by this model.
\<close>

definition working_labels :: "string list" where
  "working_labels =
     [''STAGE'', ''_score'', ''_merge_key'', ''STAGE_kept'', ''_score_kept'', ''reason'']"




subsection \<open>Names for intermediate values of \<open>deduplicate_records\<close>\<close>

text \<open>One row of the frame after lines 23, 49 and 53.\<close>

definition staged_row :: "string list \<Rightarrow> (string \<rightharpoonup> string) \<Rightarrow> string list \<Rightarrow> row \<Rightarrow> row" where
  "staged_row ks fl fp r =
     ((strip_row ks r)(''STAGE'' \<mapsto> stage_val (stage_of fl (strip_row ks r))))
       (''_score'' \<mapsto> VInt (priority fp (stage_of fl (strip_row ks r))))"

text \<open>\<open>dup_mask\<close> and \<open>to_remove_mask\<close> as the method computes them from its arguments.\<close>

definition dup_mask_of :: "config \<Rightarrow> dataframe \<Rightarrow> bool list" where
  "dup_mask_of c df = duplicated (map (key_tuple (get_keys c))
       (rows (staged (get_keys c) (get_flags c) (get_funnel_priority c) df)))"

definition to_remove_of :: "config \<Rightarrow> dataframe \<Rightarrow> bool list" where
  "to_remove_of c df =
     (let rs = rows (staged (get_keys c) (get_flags c) (get_funnel_priority c) df) in
      map (\<lambda>i. dup_mask_of c df ! i \<and> i \<notin> set (keep_idx_of (get_keys c) (dup_mask_of c df) rs))
        [0..<length rs])"

text \<open>The merge keys of the kept rows, as \<open>_log_formation\<close> computes them.\<close>

definition kept_merge_keys :: "config \<Rightarrow> dataframe \<Rightarrow> val list" where
  "kept_merge_keys c df =
     (let rs = rows (staged (get_keys c) (get_flags c) (get_funnel_priority c) df) in
      map (\<lambda>i. merge_key (get_keys c) (loc_cols (get_keys c @ [''STAGE'', ''_score'']) (rs ! i)))
          (keep_idx_of (get_keys c) (dup_mask_of c df) rs))"

subsection \<open>Example inputs\<close>











text \<open>
  Two key columns, and two duplicate groups whose key values join to the same string:
  \<open>'x||y' + '||' + 'z'\<close> and \<open>'x' + '||' + 'y||z'\<close>.
\<close>

definition pair_row :: "string \<Rightarrow> string \<Rightarrow> int \<Rightarrow> int \<Rightarrow> row" where
  "pair_row a b e p = [''A'' \<mapsto> VStr a, ''B'' \<mapsto> VStr b, ''E'' \<mapsto> VInt e, ''P'' \<mapsto> VInt p]"

definition colliding :: dataframe where
  "colliding =
     \<lparr>columns = [''A'', ''B'', ''E'', ''P''],
      rows = [pair_row ''x||y'' ''z'' 1 0, pair_row ''x||y'' ''z'' 0 1,
              pair_row ''x'' ''y||z'' 0 0, pair_row ''x'' ''y||z'' 0 0]\<rparr>"

definition colliding_config :: config where
  "colliding_config =
     \<lparr>keys = Some [''A'', ''B''], flags = Some [''ENROLL'' \<mapsto> ''E'', ''APPLY'' \<mapsto> ''P''],
      funnel_priority = Some [''ENROLL'', ''APPLY''], threshold_for_removing = Some 2\<rparr>"

section \<open>Properties\<close>

subsection \<open>Row selection and \<open>idxmax\<close>\<close>

lemma loc_mask_upt:
  "loc_mask (map Q [0..<length xs]) xs = map (\<lambda>i. xs ! i) (filter Q [0..<length xs])"
proof (induction xs rule: rev_induct)
  case Nil
  then show ?case by (simp add: loc_mask_def)
next
  case (snoc x xs)
  have "map (\<lambda>i. (xs @ [x]) ! i) (filter Q [0..<length xs]) = map (\<lambda>i. xs ! i) (filter Q [0..<length xs])"
    by (rule map_cong) (auto simp: nth_append)
  with snoc show ?case
    by (simp add: loc_mask_def zip_append)
qed

lemma fold_first_max:
  fixes S :: "nat \<Rightarrow> int" and k0 :: nat
  assumes "sorted_wrt (<) (k0 # js)"
  shows "\<exists>k. fold (\<lambda>y b. if snd b < snd y then y else b) (map (\<lambda>i. (i, S i)) js) (k0, S k0) = (k, S k)
           \<and> k \<in> set (k0 # js)
           \<and> (\<forall>j. j \<in> set (k0 # js) \<longrightarrow> S j < S k \<or> (S j = S k \<and> k \<le> j))"
  using assms
proof (induction js arbitrary: k0)
  case Nil
  then show ?case by simp
next
  case (Cons i js)
  show ?case
  proof (cases "S k0 < S i")
    case True
    from Cons.prems have "sorted_wrt (<) (i # js)" by simp
    from Cons.IH[OF this] obtain k where
      k: "fold (\<lambda>y b. if snd b < snd y then y else b) (map (\<lambda>i. (i, S i)) js) (i, S i) = (k, S k)"
         "k \<in> set (i # js)" "\<forall>j. j \<in> set (i # js) \<longrightarrow> S j < S k \<or> (S j = S k \<and> k \<le> j)"
      by blast
    from k(3) have "S i \<le> S k" by force
    with True have "S k0 < S k" by simp
    with k True show ?thesis by auto
  next
    case False
    from Cons.prems have s: "sorted_wrt (<) (k0 # js)" and lt: "k0 < i" by auto
    from Cons.IH[OF s] obtain k where
      k: "fold (\<lambda>y b. if snd b < snd y then y else b) (map (\<lambda>i. (i, S i)) js) (k0, S k0) = (k, S k)"
         "k \<in> set (k0 # js)" "\<forall>j. j \<in> set (k0 # js) \<longrightarrow> S j < S k \<or> (S j = S k \<and> k \<le> j)"
      by blast
    from k(3) have a: "S k0 < S k \<or> (S k0 = S k \<and> k \<le> k0)" by simp
    with False lt have "S i < S k \<or> (S i = S k \<and> k \<le> i)" by force
    with k False show ?thesis by auto
  qed
qed

lemma idxmax_first_max:
  fixes S :: "nat \<Rightarrow> int" and js :: "nat list"
  assumes "sorted_wrt (<) js" "js \<noteq> []"
  shows "\<exists>k. idxmax (map (\<lambda>i. (i, S i)) js) = Some k \<and> k \<in> set js
           \<and> (\<forall>j. j \<in> set js \<longrightarrow> S j < S k \<or> (S j = S k \<and> k \<le> j))"
proof -
  from assms obtain k0 ks where js: "js = k0 # ks" by (cases js) auto
  from fold_first_max[of k0 ks S] assms js show ?thesis by auto
qed

lemma idxmax_None: "idxmax xs = None \<longleftrightarrow> xs = []"
  by (cases xs) auto



lemma duplicated_nth:
  "i < length kts \<Longrightarrow> duplicated kts ! i = (1 < count_list kts (kts ! i))"
  by (simp add: duplicated_def)

lemma length_duplicated [simp]: "length (duplicated kts) = length kts"
  by (simp add: duplicated_def)

lemma set_map_filter: "set (List.map_filter f xs) = {y. \<exists>x \<in> set xs. f x = Some y}"
  by (induction xs) (auto split: option.splits)

lemma keep_idx_iff:
  fixes rs :: "row list" and ks :: "string list"
  defines "K \<equiv> \<lambda>i. key_tuple ks (rs ! i)"
      and "S \<equiv> \<lambda>i. int_cell (rs ! i) ''_score''"
      and "dm \<equiv> duplicated (map (key_tuple ks) rs)"
  shows "k \<in> set (keep_idx_of ks dm rs) \<longleftrightarrow>
           k < length rs \<and> dm ! k \<and>
           (\<forall>j<length rs. K j = K k \<longrightarrow> S j < S k \<or> (S j = S k \<and> k \<le> j))"
proof -
  define sub where "sub = filter (\<lambda>i. dm ! i) [0..<length rs]"
  define mem where "mem = (\<lambda>g. filter (\<lambda>i. K i = g) sub)"
  have set_sub: "set sub = {i. i < length rs \<and> dm ! i}" by (auto simp: sub_def)
  have set_mem: "\<And>g. set (mem g) = {i. i < length rs \<and> dm ! i \<and> K i = g}"
    by (auto simp: mem_def set_sub)
  have sorted_mem: "\<And>g. sorted_wrt (<) (mem g)"
    by (simp add: mem_def sub_def sorted_wrt_filter)
  have same_dm: "\<And>i j. i < length rs \<Longrightarrow> j < length rs \<Longrightarrow> K i = K j \<Longrightarrow> dm ! i = dm ! j"
    by (simp add: dm_def duplicated_nth K_def)
  have keep: "set (keep_idx_of ks dm rs) =
      {y. \<exists>g \<in> K ` set sub. idxmax (map (\<lambda>i. (i, S i)) (mem g)) = Some y}"
    by (simp add: keep_idx_of_def Let_def set_map_filter sub_def mem_def K_def S_def)
  have first: "\<And>g. g \<in> K ` set sub \<Longrightarrow>
      \<exists>k'. idxmax (map (\<lambda>i. (i, S i)) (mem g)) = Some k' \<and> k' \<in> set (mem g)
         \<and> (\<forall>j. j \<in> set (mem g) \<longrightarrow> S j < S k' \<or> (S j = S k' \<and> k' \<le> j))"
  proof -
    fix g assume "g \<in> K ` set sub"
    then have "mem g \<noteq> []" by (auto simp: mem_def filter_empty_conv)
    from idxmax_first_max[OF sorted_mem this] show "\<exists>k'. idxmax (map (\<lambda>i. (i, S i)) (mem g)) = Some k' \<and> k' \<in> set (mem g)
         \<and> (\<forall>j. j \<in> set (mem g) \<longrightarrow> S j < S k' \<or> (S j = S k' \<and> k' \<le> j))" .
  qed
  show ?thesis
  proof
    assume "k \<in> set (keep_idx_of ks dm rs)"
    then obtain g where g: "g \<in> K ` set sub" "idxmax (map (\<lambda>i. (i, S i)) (mem g)) = Some k"
      using keep by auto
    from first[OF g(1)] g(2) have k: "k \<in> set (mem g)"
      and mx: "\<forall>j. j \<in> set (mem g) \<longrightarrow> S j < S k \<or> (S j = S k \<and> k \<le> j)" by auto
    from k have kk: "k < length rs" "dm ! k" "K k = g" by (auto simp: set_mem)
    have "\<forall>j<length rs. K j = K k \<longrightarrow> S j < S k \<or> (S j = S k \<and> k \<le> j)"
    proof (intro allI impI)
      fix j assume j: "j < length rs" "K j = K k"
      with kk same_dm[of j k] have "j \<in> set (mem g)" by (auto simp: set_mem)
      with mx show "S j < S k \<or> (S j = S k \<and> k \<le> j)" by blast
    qed
    with kk show "k < length rs \<and> dm ! k \<and>
           (\<forall>j<length rs. K j = K k \<longrightarrow> S j < S k \<or> (S j = S k \<and> k \<le> j))" by blast
  next
    assume a: "k < length rs \<and> dm ! k \<and>
           (\<forall>j<length rs. K j = K k \<longrightarrow> S j < S k \<or> (S j = S k \<and> k \<le> j))"
    then have ksub: "k \<in> set sub" by (simp add: set_sub)
    then have g: "K k \<in> K ` set sub" by blast
    from first[OF g] obtain k' where k': "idxmax (map (\<lambda>i. (i, S i)) (mem (K k))) = Some k'"
       "k' \<in> set (mem (K k))" "\<forall>j. j \<in> set (mem (K k)) \<longrightarrow> S j < S k' \<or> (S j = S k' \<and> k' \<le> j)"
      by blast
    from a have "k \<in> set (mem (K k))" by (simp add: set_mem)
    with k'(3) have 1: "S k < S k' \<or> (S k = S k' \<and> k' \<le> k)" by blast
    from k'(2) have "k' < length rs" "K k' = K k" by (auto simp: set_mem)
    with a have 2: "S k' < S k \<or> (S k' = S k \<and> k \<le> k')" by blast
    from 1 2 have "k' = k" by auto
    with k'(1) g show "k \<in> set (keep_idx_of ks dm rs)" using keep by auto
  qed
qed

subsection \<open>The staged frame and the paths of \<open>deduplicate_records\<close>\<close>

lemma cell_upd [simp]: "cell (r(c \<mapsto> v)) c' = (if c' = c then v else cell r c')"
  by (simp add: cell_def)

lemma rows_staged: "rows (staged ks fl fp df) = map (staged_row ks fl fp) (rows df)"
  by (simp add: staged_def Let_def set_column_def strip_keys_def staged_row_def priority_def)


lemma key_tuple_staged_row:
  assumes "''STAGE'' \<notin> set ks" "''_score'' \<notin> set ks"
  shows "key_tuple ks (staged_row ks fl fp r) = key_tuple ks (strip_row ks r)"
  unfolding key_tuple_def using assms by (intro map_cong) (auto simp: staged_row_def)

lemma int_cell_staged_row:
  "int_cell (staged_row ks fl fp r) ''_score'' = priority fp (stage_of fl (strip_row ks r))"
  by (simp add: int_cell_def staged_row_def)

lemma drop_staged_row:
  "drop_row [''STAGE'', ''_score''] (staged_row ks fl fp r) = drop_row [''STAGE'', ''_score''] (strip_row ks r)"
  by (auto simp: drop_row_def staged_row_def fun_eq_iff)

lemma survivor_iff:
  "survivor c rs i \<longleftrightarrow>
     (\<forall>j<length rs. norm_key c (rs ! j) = norm_key c (rs ! i) \<longrightarrow>
        record_score c (rs ! j) < record_score c (rs ! i)
        \<or> (record_score c (rs ! j) = record_score c (rs ! i) \<and> i \<le> j))"
  by (auto simp: survivor_def list_all_iff)

lemma returned_cases:
  assumes "returned (deduplicate_records df (Some c))"
  shows "get_keys c \<noteq> [] \<and> set (get_keys c) \<subseteq> set (columns df)
         \<and> set (flag_cols_of (get_flags c)) \<subseteq> set (columns df)
         \<and> fst (deduplicate_records df (Some c)) = staged (get_keys c) (get_flags c) (get_funnel_priority c) df"
  using assms
  by (auto simp: deduplicate_records_def returned_def Let_def strip_keys_def filter_empty_conv
           split: if_splits option.splits)

lemma to_remove_nodup:
  assumes "\<not> list_ex (\<lambda>b. b) (dup_mask_of c df)"
  shows "to_remove_of c df =
     map (\<lambda>i. False) [0..<length (rows (staged (get_keys c) (get_flags c) (get_funnel_priority c) df))]"
proof -
  have "\<And>i. i < length (dup_mask_of c df) \<Longrightarrow> \<not> dup_mask_of c df ! i"
    using assms by (auto simp: list_ex_iff in_set_conv_nth)
  then show ?thesis
    by (auto simp: to_remove_of_def Let_def dup_mask_of_def)
qed

lemma length_to_remove [simp]:
  "length (to_remove_of c df) = length (rows df)"
  by (simp add: to_remove_of_def Let_def rows_staged)

lemma loc_mask_all:
  "length xs = n \<Longrightarrow> loc_mask (map (\<lambda>i. True) [0..<n]) xs = xs"
  using loc_mask_upt[of "\<lambda>i. True" xs] map_nth[of xs] by auto

lemma deduped_rows:
  assumes "returned (deduplicate_records df (Some c))"
  shows "rows (deduped_of (deduplicate_records df (Some c))) =
     loc_mask (map Not (to_remove_of c df))
       (map (drop_row [''STAGE'', ''_score''])
          (rows (staged (get_keys c) (get_flags c) (get_funnel_priority c) df)))"
proof (cases "list_ex (\<lambda>b. b) (dup_mask_of c df)")
  case True
  with assms show ?thesis
    by (auto simp: deduplicate_records_def returned_def deduped_of_def Let_def drop_columns_def
          dup_mask_of_def to_remove_of_def
          split: if_splits option.splits)
next
  case False
  from to_remove_nodup[OF False] have "map Not (to_remove_of c df) =
     map (\<lambda>i. True) [0..<length (rows (staged (get_keys c) (get_flags c) (get_funnel_priority c) df))]"
    by simp
  then have "loc_mask (map Not (to_remove_of c df))
       (map (drop_row [''STAGE'', ''_score''])
          (rows (staged (get_keys c) (get_flags c) (get_funnel_priority c) df)))
     = map (drop_row [''STAGE'', ''_score''])
          (rows (staged (get_keys c) (get_flags c) (get_funnel_priority c) df))"
    by (simp add: loc_mask_all)
  with False assms show ?thesis
    by (auto simp: deduplicate_records_def returned_def deduped_of_def Let_def drop_columns_def
          dup_mask_of_def
          split: if_splits option.splits)
qed

lemma key_tuple_strip_row: "key_tuple (get_keys c) (strip_row (get_keys c) r) = norm_key c r"
  by (simp add: key_tuple_def norm_key_def strip_row_def cell_def)

subsection \<open>Survivors\<close>

lemma first_max_exists:
  fixes sc :: "nat \<Rightarrow> int"
  assumes "i < n"
  shows "\<exists>!k. k < n \<and> nk k = nk i \<and> (\<forall>j<n. nk j = nk k \<longrightarrow> sc j < sc k \<or> (sc j = sc k \<and> k \<le> j))"
proof -
  define G where "G = {j. j < n \<and> nk j = nk i}"
  have fin: "finite G" and ne: "G \<noteq> {}" using assms by (auto simp: G_def)
  define m where "m = Max (sc ` G)"
  have "m \<in> sc ` G" unfolding m_def using fin ne by (intro Max_in) auto
  then obtain j0 where j0: "j0 \<in> G" "sc j0 = m" by auto
  define k where "k = (LEAST j. j \<in> G \<and> sc j = m)"
  have k: "k \<in> G \<and> sc k = m" unfolding k_def using j0 by (intro LeastI[of "\<lambda>j. j \<in> G \<and> sc j = m" j0]) simp
  have least: "\<And>j. j \<in> G \<Longrightarrow> sc j = m \<Longrightarrow> k \<le> j" unfolding k_def by (intro Least_le) simp
  have le: "\<And>j. j \<in> G \<Longrightarrow> sc j \<le> m" unfolding m_def using fin by (intro Max_ge) auto
  have ex: "k < n \<and> nk k = nk i \<and> (\<forall>j<n. nk j = nk k \<longrightarrow> sc j < sc k \<or> (sc j = sc k \<and> k \<le> j))"
  proof (intro conjI allI impI)
    show "k < n" "nk k = nk i" using k by (auto simp: G_def)
  next
    fix j assume "j < n" "nk j = nk k"
    with k have jG: "j \<in> G" by (auto simp: G_def)
    from le[OF jG] least[OF jG] k show "sc j < sc k \<or> (sc j = sc k \<and> k \<le> j)" by force
  qed
  show ?thesis
  proof (rule ex1I[of _ k])
    show "k < n \<and> nk k = nk i \<and> (\<forall>j<n. nk j = nk k \<longrightarrow> sc j < sc k \<or> (sc j = sc k \<and> k \<le> j))" by (rule ex)
  next
    fix k' assume a: "k' < n \<and> nk k' = nk i \<and> (\<forall>j<n. nk j = nk k' \<longrightarrow> sc j < sc k' \<or> (sc j = sc k' \<and> k' \<le> j))"
    with ex have 1: "sc k < sc k' \<or> (sc k = sc k' \<and> k' \<le> k)" by metis
    from a ex have 2: "sc k' < sc k \<or> (sc k' = sc k \<and> k \<le> k')" by metis
    from 1 2 show "k' = k" by auto
  qed
qed




subsection \<open>Stages and scores\<close>

lemma row_get_one: "row_get r (fl s) = Some (VInt 1) \<longleftrightarrow> holds_one fl r s"
  by (simp add: row_get_def holds_one_def split: option.splits)

lemma stage_of_find: "stage_of fl r = find (holds_one fl r) precedence"
  by (simp add: stage_of_def derive_stage_def row_get_one precedence_def)

lemma stage_column:
  "map (\<lambda>r. cell r ''STAGE'') (rows (staged ks fl fp df)) =
   map (\<lambda>r. stage_val (find (holds_one fl r) precedence)) (rows (strip_keys ks df))"
  by (simp add: rows_staged staged_row_def strip_keys_def stage_of_find)







subsection \<open>Failures and the caller's frame\<close>

lemma missing_cols_iff:
  "filter (\<lambda>c. c \<notin> set cs) xs \<noteq> [] \<longleftrightarrow> \<not> set xs \<subseteq> set cs"
  by (auto simp: filter_empty_conv)




subsection \<open>Trimming twice, frames without duplicates\<close>





lemma nodup_result:
  assumes "get_keys c \<noteq> []" "set (get_keys c) \<subseteq> set (columns df)"
      and "set (flag_cols_of (get_flags c)) \<subseteq> set (columns df)"
      and "\<not> list_ex (\<lambda>b. b) (dup_mask_of c df)"
  shows "snd (deduplicate_records df (Some c)) =
           Inr (drop_columns [''STAGE'', ''_score'']
                  (staged (get_keys c) (get_flags c) (get_funnel_priority c) df), [])"
  using assms
  by (simp add: deduplicate_records_def Let_def strip_keys_def missing_cols_iff dup_mask_of_def)




lemma rows_dropped:
  "rows (drop_columns [''STAGE'', ''_score''] (staged ks fl fp df)) =
     map (\<lambda>r. drop_row [''STAGE'', ''_score''] (strip_row ks r)) (rows df)"
  by (simp add: drop_columns_def rows_staged drop_staged_row)









subsection \<open>Rows of the audit frame\<close>

lemma set_getitem: "set (getitem cs a) = {p \<in> set a. fst p \<in> set cs}"
  by (auto simp: getitem_def)

lemma set_setitem: "set (setitem c v a) = insert (c, v) {p \<in> set a. fst p \<noteq> c}"
  by (auto simp: setitem_def image_iff)

lemma set_loc_cols: "set (loc_cols cs r) = {(k, cell r k) | k. k \<in> set cs}"
  by (auto simp: loc_cols_def)



lemma rename_kept_labels:
  "c \<in> {''_merge_key'', ''STAGE'', ''_score''} \<Longrightarrow>
   rename_kept c \<in> {''_merge_key'', ''STAGE_kept'', ''_score_kept''}"
  by (auto simp: rename_kept_def)



lemma staged_key_cell:
  assumes "k \<in> set ks" "k \<noteq> ''STAGE''" "k \<noteq> ''_score''"
  shows "cell (staged_row ks fl fp r) k = VStr (strip (astype_str (cell r k)))"
  using assms by (simp add: staged_row_def strip_row_def cell_def)

lemma grouping_keys:
  assumes "''STAGE'' \<notin> set (get_keys c)" "''_score'' \<notin> set (get_keys c)"
  shows "map (key_tuple (get_keys c)) (rows (staged (get_keys c) fl fp df)) = map (norm_key c) (rows df)"
  by (simp add: rows_staged key_tuple_staged_row[OF assms] key_tuple_strip_row)


subsection \<open>The audit frame when the merge keys of the kept rows differ\<close>

text \<open>
  When no two kept rows have the same merge key, the left merge gives one row for each
  removed record. With one key column the merge key is the key value itself, so this is
  the case, and each removed record is paired with the survivor of its own group.
\<close>

lemma acell_setitem: "acell (setitem c v a) c = v"
proof (cases "c \<in> fst ` set a")
  case True
  have "map_of (map (\<lambda>p. if fst p = c then (c, v) else p) a) c = Some v"
    using True by (induction a) auto
  with True show ?thesis by (simp add: acell_def setitem_def)
next
  case False
  then have "map_of a c = None" by (simp add: map_of_eq_None_iff)
  with False show ?thesis by (simp add: acell_def setitem_def map_add_def)
qed

lemma filter_setitem_same:
  "filter (\<lambda>p. fst p = c) (setitem c v a) \<noteq> []
   \<and> (\<forall>p \<in> set (filter (\<lambda>p. fst p = c) (setitem c v a)). p = (c, v))"
proof -
  have "(c, v) \<in> set (setitem c v a)" by (simp add: set_setitem)
  then have "filter (\<lambda>p. fst p = c) (setitem c v a) \<noteq> []"
    unfolding filter_empty_conv by force
  moreover have "\<forall>p \<in> set (filter (\<lambda>p. fst p = c) (setitem c v a)). p = (c, v)"
    by (auto simp: set_setitem)
  ultimately show ?thesis by blast
qed

lemma acell_right_row:
  "acell (map (\<lambda>p. (rename_kept (fst p), snd p))
            (getitem [''_merge_key'', ''STAGE'', ''_score''] (setitem ''_merge_key'' v a)))
         ''_merge_key'' = v"
proof -
  let ?f = "filter (\<lambda>p. fst p = ''_merge_key'') (setitem ''_merge_key'' v a)"
  from filter_setitem_same[of "''_merge_key''" v a] obtain ps where
    f: "?f = (''_merge_key'', v) # ps"
    by (cases ?f) auto
  have "getitem [''_merge_key'', ''STAGE'', ''_score''] (setitem ''_merge_key'' v a) =
          (''_merge_key'', v) # ps @
            filter (\<lambda>p. fst p = ''STAGE'') (setitem ''_merge_key'' v a) @
            filter (\<lambda>p. fst p = ''_score'') (setitem ''_merge_key'' v a)"
    by (simp add: getitem_def f)
  then show ?thesis by (simp add: acell_def rename_kept_def)
qed

lemma filter_key_le1:
  "distinct (map f xs) \<Longrightarrow> length (filter (\<lambda>r. f r = x) xs) \<le> 1"
  by (induction xs) (auto simp: filter_empty_conv image_iff)

lemma length_merge_left:
  assumes "distinct (map (\<lambda>r. acell r ''_merge_key'') R)"
  shows "length (merge_left L R) = length L"
proof -
  have one: "\<And>l. length (case filter (\<lambda>r. acell r ''_merge_key'' = acell l ''_merge_key'') R of
          [] \<Rightarrow> [l @ [(''STAGE_kept'', VNaN), (''_score_kept'', VNaN)]]
        | ms \<Rightarrow> map (\<lambda>r. l @ filter (\<lambda>p. fst p \<noteq> ''_merge_key'') r) ms) = 1"
  proof -
    fix l
    from filter_key_le1[OF assms, of "acell l ''_merge_key''"]
    show "length (case filter (\<lambda>r. acell r ''_merge_key'' = acell l ''_merge_key'') R of
          [] \<Rightarrow> [l @ [(''STAGE_kept'', VNaN), (''_score_kept'', VNaN)]]
        | ms \<Rightarrow> map (\<lambda>r. l @ filter (\<lambda>p. fst p \<noteq> ''_merge_key'') r) ms) = 1"
      by (cases "filter (\<lambda>r. acell r ''_merge_key'' = acell l ''_merge_key'') R") auto
  qed
  show ?thesis
    unfolding merge_left_def length_concat by (simp add: one comp_def sum_list_triv)
qed

lemma loc_mask_map: "loc_mask msk (map g xs) = map g (loc_mask msk xs)"
proof (induction msk arbitrary: xs)
  case Nil
  then show ?case by (simp add: loc_mask_def)
next
  case (Cons b msk)
  then show ?case by (cases xs) (auto simp: loc_mask_def)
qed

lemma length_loc_mask_compl:
  "length (loc_mask msk xs) + length (loc_mask (map Not msk) xs) = length (zip msk xs)"
proof -
  have "filter fst (zip (map Not msk) xs) = map (\<lambda>p. (\<not> fst p, snd p)) (filter (\<lambda>p. \<not> fst p) (zip msk xs))"
    by (simp add: zip_map1 filter_map comp_def case_prod_beta)
  then have "length (loc_mask (map Not msk) xs) = length (filter (\<lambda>p. \<not> fst p) (zip msk xs))"
    by (simp add: loc_mask_def)
  moreover have "length (loc_mask msk xs) = length (filter fst (zip msk xs))"
    by (simp add: loc_mask_def)
  ultimately show ?thesis
    using sum_length_filter_compl[of fst "zip msk xs"] by simp
qed

lemma length_log_formation:
  assumes "distinct (map (\<lambda>i. merge_key ks (loc_cols (ks @ [''STAGE'', ''_score'']) (rows df3 ! i))) keep)"
  shows "length (log_formation df3 msk ks fc keep) = length (loc_mask msk (rows df3))"
proof -
  define right where "right = map (\<lambda>a. map (\<lambda>p. (rename_kept (fst p), snd p))
                               (getitem [''_merge_key'', ''STAGE'', ''_score''] a))
      (map (\<lambda>a. setitem ''_merge_key'' (merge_key ks a) a)
         (map (\<lambda>i. loc_cols (ks @ [''STAGE'', ''_score'']) (rows df3 ! i)) keep))"
  have "map (\<lambda>r. acell r ''_merge_key'') right =
        map (\<lambda>i. merge_key ks (loc_cols (ks @ [''STAGE'', ''_score'']) (rows df3 ! i))) keep"
    by (simp add: right_def comp_def acell_right_row)
  with assms have d: "distinct (map (\<lambda>r. acell r ''_merge_key'') right)" by simp
  show ?thesis
    unfolding log_formation_def Let_def
    using length_merge_left[OF d] by (simp add: right_def)
qed

lemma conservation_without_collision:
  assumes "returned (deduplicate_records df (Some c))"
      and "distinct (kept_merge_keys c df)"
  shows "length (rows (deduped_of (deduplicate_records df (Some c))))
           + length (audit_of (deduplicate_records df (Some c))) = length (rows df)"
proof (cases "list_ex (\<lambda>b. b) (dup_mask_of c df)")
  case False
  from returned_cases[OF assms(1)] nodup_result[OF _ _ _ False]
  have "snd (deduplicate_records df (Some c)) =
           Inr (drop_columns [''STAGE'', ''_score'']
                  (staged (get_keys c) (get_flags c) (get_funnel_priority c) df), [])" by blast
  then show ?thesis by (simp add: deduped_of_def audit_of_def rows_dropped)
next
  case True
  let ?df3 = "staged (get_keys c) (get_flags c) (get_funnel_priority c) df"
  have a: "audit_of (deduplicate_records df (Some c)) =
     log_formation ?df3 (to_remove_of c df) (get_keys c) (flag_cols_of (get_flags c))
       (keep_idx_of (get_keys c) (dup_mask_of c df) (rows ?df3))"
    using assms(1) True
    by (auto simp: deduplicate_records_def returned_def audit_of_def Let_def
          dup_mask_of_def to_remove_of_def
          split: if_splits option.splits)
  have "length (audit_of (deduplicate_records df (Some c))) = length (loc_mask (to_remove_of c df) (rows ?df3))"
    unfolding a using assms(2) by (intro length_log_formation) (simp add: kept_merge_keys_def Let_def)
  moreover have "length (rows (deduped_of (deduplicate_records df (Some c)))) =
     length (loc_mask (map Not (to_remove_of c df)) (rows ?df3))"
    unfolding deduped_rows[OF assms(1)] by (simp add: loc_mask_map)
  ultimately show ?thesis
    using length_loc_mask_compl[of "to_remove_of c df" "rows ?df3"] by (simp add: rows_staged)
qed

lemma map_map_filter_key:
  assumes "\<And>g y. g \<in> set gs \<Longrightarrow> f g = Some y \<Longrightarrow> K y = g"
  shows "map K (List.map_filter f gs) = filter (\<lambda>g. f g \<noteq> None) gs"
  using assms by (induction gs) (auto split: option.splits)

lemma keep_idx_keys_distinct:
  fixes rs :: "row list" and ks :: "string list"
  shows "distinct (map (\<lambda>i. key_tuple ks (rs ! i)) (keep_idx_of ks dm rs))"
proof -
  define sub where "sub = filter (\<lambda>i. dm ! i) [0..<length rs]"
  define groups where "groups = sort_key (map astype_str) (remdups (map (\<lambda>i. key_tuple ks (rs ! i)) sub))"
  define f where "f = (\<lambda>g. idxmax (map (\<lambda>i. (i, int_cell (rs ! i) ''_score''))
                           (filter (\<lambda>i. key_tuple ks (rs ! i) = g) sub)))"
  have k: "keep_idx_of ks dm rs = List.map_filter f groups"
    unfolding keep_idx_of_def Let_def f_def groups_def sub_def by (rule refl)
  have key: "\<And>g y. g \<in> set groups \<Longrightarrow> f g = Some y \<Longrightarrow> key_tuple ks (rs ! y) = g"
  proof -
    fix g y assume g: "g \<in> set groups" and y: "f g = Some y"
    let ?m = "filter (\<lambda>i. key_tuple ks (rs ! i) = g) sub"
    have s: "sorted_wrt (<) ?m" by (simp add: sub_def sorted_wrt_filter)
    from y have ne: "?m \<noteq> []" by (auto simp: f_def)
    from idxmax_first_max[OF s ne, of "\<lambda>i. int_cell (rs ! i) ''_score''"] y
    have "y \<in> set ?m" by (auto simp: f_def)
    then show "key_tuple ks (rs ! y) = g" by simp
  qed
  have "map (\<lambda>i. key_tuple ks (rs ! i)) (keep_idx_of ks dm rs) = filter (\<lambda>g. f g \<noteq> None) groups"
    unfolding k by (rule map_map_filter_key[OF key])
  moreover have "distinct groups" by (simp add: groups_def)
  ultimately show ?thesis by simp
qed

lemma merge_key_single:
  assumes "k \<noteq> ''STAGE''" "k \<noteq> ''_score''"
  shows "merge_key [k] (loc_cols [k, ''STAGE'', ''_score''] r) = VStr (astype_str (cell r k))"
  using assms by (simp add: merge_key_def loc_cols_def getitem_def)

lemma conservation_single_key:
  assumes "returned (deduplicate_records df (Some c))"
      and "get_keys c = [k]" and "k \<noteq> ''STAGE''" and "k \<noteq> ''_score''"
  shows "length (rows (deduped_of (deduplicate_records df (Some c))))
           + length (audit_of (deduplicate_records df (Some c))) = length (rows df)"
proof -
  let ?rs = "rows (staged [k] (get_flags c) (get_funnel_priority c) df)"
  let ?keep = "keep_idx_of [k] (dup_mask_of c df) ?rs"
  have cellk: "\<And>i. i < length (rows df) \<Longrightarrow>
      VStr (astype_str (cell (?rs ! i) k)) = cell (?rs ! i) k"
    using assms(3,4) by (simp add: rows_staged staged_key_cell)
  have bound: "\<And>i. i \<in> set ?keep \<Longrightarrow> i < length (rows df)"
  proof -
    fix i assume "i \<in> set ?keep"
    then have "i \<in> set (keep_idx_of [k] (duplicated (map (key_tuple [k]) ?rs)) ?rs)"
      by (simp add: dup_mask_of_def assms(2))
    then show "i < length (rows df)" unfolding keep_idx_iff by (simp add: rows_staged)
  qed
  have eq: "map (\<lambda>i. merge_key [k] (loc_cols [k, ''STAGE'', ''_score''] (?rs ! i))) ?keep
        = map (\<lambda>i. cell (?rs ! i) k) ?keep"
  proof (rule map_cong)
    fix i assume "i \<in> set ?keep"
    from cellk[OF bound[OF this]] merge_key_single[OF assms(3,4), of "?rs ! i"]
    show "merge_key [k] (loc_cols [k, ''STAGE'', ''_score''] (?rs ! i)) = cell (?rs ! i) k"
      by simp
  qed simp
  have "distinct (map (\<lambda>i. key_tuple [k] (?rs ! i)) ?keep)"
    by (rule keep_idx_keys_distinct)
  then have d: "distinct (map (\<lambda>i. cell (?rs ! i) k) ?keep)"
    by (simp add: key_tuple_def distinct_map inj_on_def)
  have km: "kept_merge_keys c df =
      map (\<lambda>i. merge_key [k] (loc_cols [k, ''STAGE'', ''_score''] (?rs ! i))) ?keep"
    by (simp add: kept_merge_keys_def Let_def assms(2))
  have "distinct (kept_merge_keys c df)" unfolding km eq by (rule d)
  from conservation_without_collision[OF assms(1) this] show ?thesis .
qed

lemma acell_unique:
  assumes "c \<in> fst ` set a" "\<And>v'. (c, v') \<in> set a \<Longrightarrow> v' = v"
  shows "acell a c = v"
proof -
  from assms(1) obtain v' where "map_of a c = Some v'"
    by (cases "map_of a c") (auto simp: map_of_eq_None_iff)
  moreover from this have "(c, v') \<in> set a" by (rule map_of_SomeD)
  ultimately show ?thesis using assms(2) by (simp add: acell_def)
qed

lemma audit_dup_path:
  assumes "returned (deduplicate_records df (Some c))"
      and "audit_of (deduplicate_records df (Some c)) \<noteq> []"
  shows "audit_of (deduplicate_records df (Some c)) =
     log_formation (staged (get_keys c) (get_flags c) (get_funnel_priority c) df)
       (to_remove_of c df) (get_keys c) (flag_cols_of (get_flags c))
       (keep_idx_of (get_keys c) (dup_mask_of c df)
          (rows (staged (get_keys c) (get_flags c) (get_funnel_priority c) df)))"
  using assms
  by (auto simp: deduplicate_records_def returned_def audit_of_def Let_def
        dup_mask_of_def to_remove_of_def
        split: if_splits option.splits)

lemma keep_idx_survivor:
  assumes "''STAGE'' \<notin> set (get_keys c)" "''_score'' \<notin> set (get_keys c)"
  shows "j \<in> set (keep_idx_of (get_keys c) (dup_mask_of c df)
                    (rows (staged (get_keys c) (get_flags c) (get_funnel_priority c) df)))
         \<longleftrightarrow> j < length (rows df) \<and> dup_mask_of c df ! j \<and> survivor c (rows df) j"
proof -
  define rs where "rs = rows (staged (get_keys c) (get_flags c) (get_funnel_priority c) df)"
  have len: "length rs = length (rows df)" by (simp add: rs_def rows_staged)
  have K: "\<And>j. j < length (rows df) \<Longrightarrow> key_tuple (get_keys c) (rs ! j) = norm_key c (rows df ! j)"
    using assms by (simp add: rs_def rows_staged key_tuple_staged_row key_tuple_strip_row)
  have S: "\<And>j. j < length (rows df) \<Longrightarrow> int_cell (rs ! j) ''_score'' = record_score c (rows df ! j)"
    by (simp add: rs_def rows_staged int_cell_staged_row record_score_def)
  show ?thesis
    unfolding dup_mask_of_def rs_def[symmetric] keep_idx_iff survivor_iff
    using len K S by auto
qed

lemma set_loc_mask_upt:
  "set (loc_mask (map Q [0..<length xs]) xs) = {xs ! i | i. i < length xs \<and> Q i}"
  unfolding loc_mask_upt by auto

lemma audit_single_key:
  assumes ret: "returned (deduplicate_records df (Some c))"
      and ks: "get_keys c = [k]"
      and kw: "k \<notin> set working_labels"
      and fw: "list_all (\<lambda>l. l \<notin> set working_labels) (flag_cols_of (get_flags c))"
      and kf: "k \<notin> set (flag_cols_of (get_flags c))"
      and a: "a \<in> set (audit_of (deduplicate_records df (Some c)))"
  shows "\<exists>i j. i < length (rows df) \<and> j < length (rows df)
           \<and> \<not> survivor c (rows df) i \<and> survivor c (rows df) j
           \<and> norm_key c (rows df ! j) = norm_key c (rows df ! i)
           \<and> acell a ''_score'' = VInt (record_score c (rows df ! i))
           \<and> acell a ''_score_kept'' = VInt (record_score c (rows df ! j))
           \<and> acell a ''reason'' =
               VStr (if record_score c (rows df ! i) < record_score c (rows df ! j)
                     then ''duplicate: lower-priority stage''
                     else ''duplicate: same stage, kept first'')"
proof -
  define fc where "fc = flag_cols_of (get_flags c)"
  define rs where "rs = rows (staged [k] (get_flags c) (get_funnel_priority c) df)"
  define keep where "keep = keep_idx_of [k] (dup_mask_of c df) rs"
  define n where "n = length (rows df)"
  have kn: "k \<noteq> ''STAGE''" "k \<noteq> ''_score''" "k \<noteq> ''_merge_key''" "k \<noteq> ''STAGE_kept''"
           "k \<noteq> ''_score_kept''" "k \<noteq> ''reason''"
    using kw by (auto simp: working_labels_def)
  have fn: "''STAGE'' \<notin> set fc" "''_score'' \<notin> set fc" "''_merge_key'' \<notin> set fc"
           "''STAGE_kept'' \<notin> set fc" "''_score_kept'' \<notin> set fc" "''reason'' \<notin> set fc"
    using fw by (auto simp: working_labels_def fc_def list_all_iff)
  have ksn: "''STAGE'' \<notin> set (get_keys c)" "''_score'' \<notin> set (get_keys c)"
    using kn by (simp_all add: ks)
  have len: "length rs = n" by (simp add: rs_def rows_staged n_def)
  have cellk: "\<And>i. i < n \<Longrightarrow> [cell (rs ! i) k] = norm_key c (rows df ! i)"
    using key_tuple_staged_row[OF ksn] key_tuple_strip_row[of c]
    by (simp add: rs_def rows_staged n_def ks key_tuple_def)
  have cellk_str: "\<And>i. i < n \<Longrightarrow> VStr (astype_str (cell (rs ! i) k)) = cell (rs ! i) k"
    using kn by (simp add: rs_def rows_staged n_def staged_key_cell)
  have cells: "\<And>i. i < n \<Longrightarrow> cell (rs ! i) ''_score'' = VInt (record_score c (rows df ! i))"
    by (simp add: rs_def rows_staged n_def staged_row_def record_score_def ks)
  \<comment> \<open>the audit frame is built on the duplicate path\<close>
  from a have "audit_of (deduplicate_records df (Some c)) \<noteq> []" by auto
  from audit_dup_path[OF ret this]
  have au: "audit_of (deduplicate_records df (Some c)) = log_formation
      (staged [k] (get_flags c) (get_funnel_priority c) df) (to_remove_of c df) [k] fc keep"
    by (simp add: ks fc_def keep_def rs_def)
  define out where "out = [k] @ [''STAGE'', ''STAGE_kept'', ''_score'', ''_score_kept'', ''reason'']"
  define left_row where "left_row = (\<lambda>r. setitem ''_merge_key''
      (merge_key [k] (loc_cols ([k] @ fc @ [''STAGE'', ''_score'']) r))
      (loc_cols ([k] @ fc @ [''STAGE'', ''_score'']) r))"
  define right_row where "right_row = (\<lambda>i. map (\<lambda>p. (rename_kept (fst p), snd p))
      (getitem [''_merge_key'', ''STAGE'', ''_score'']
         (setitem ''_merge_key'' (merge_key [k] (loc_cols ([k] @ [''STAGE'', ''_score'']) (rs ! i)))
            (loc_cols ([k] @ [''STAGE'', ''_score'']) (rs ! i)))))"
  have lf: "log_formation (staged [k] (get_flags c) (get_funnel_priority c) df)
                (to_remove_of c df) [k] fc keep =
      map (getitem out) (map (\<lambda>m. setitem ''reason'' (VStr (reason_fn m)) m)
        (merge_left (map left_row (loc_mask (to_remove_of c df) rs)) (map right_row keep)))"
    unfolding log_formation_def Let_def out_def left_row_def right_row_def rs_def
    by (simp add: comp_def)
  from a obtain m where
    m: "m \<in> set (merge_left (map left_row (loc_mask (to_remove_of c df) rs)) (map right_row keep))"
    and am: "a = getitem out (setitem ''reason'' (VStr (reason_fn m)) m)"
    unfolding au lf by auto
  \<comment> \<open>the removed record behind the row\<close>
  have tr: "to_remove_of c df = map (\<lambda>i. dup_mask_of c df ! i \<and> i \<notin> set keep) [0..<length rs]"
    by (simp add: to_remove_of_def Let_def ks keep_def rs_def)
  from m obtain l where l: "l \<in> set (map left_row (loc_mask (to_remove_of c df) rs))"
    and ml: "m \<in> set (case filter (\<lambda>r. acell r ''_merge_key'' = acell l ''_merge_key'') (map right_row keep) of
          [] \<Rightarrow> [l @ [(''STAGE_kept'', VNaN), (''_score_kept'', VNaN)]]
        | ms \<Rightarrow> map (\<lambda>r. l @ filter (\<lambda>p. fst p \<noteq> ''_merge_key'') r) ms)"
    by (auto simp: merge_left_def)
  from l obtain i where i: "i < n" "dup_mask_of c df ! i" "i \<notin> set keep" and li: "l = left_row (rs ! i)"
    unfolding tr set_map set_loc_mask_upt using len by auto
  \<comment> \<open>merge keys\<close>
  have mk_left: "acell l ''_merge_key'' = cell (rs ! i) k"
  proof -
    have "getitem [k] (loc_cols ([k] @ fc @ [''STAGE'', ''_score'']) (rs ! i)) = [(k, cell (rs ! i) k)]"
      using kn kf by (auto simp: getitem_def loc_cols_def fc_def[symmetric] filter_empty_conv)
    then have "merge_key [k] (loc_cols ([k] @ fc @ [''STAGE'', ''_score'']) (rs ! i))
                 = VStr (astype_str (cell (rs ! i) k))"
      by (simp add: merge_key_def)
    then show ?thesis using cellk_str[OF i(1)] by (simp add: li left_row_def acell_setitem)
  qed
  have keep_n: "\<And>j. j \<in> set keep \<Longrightarrow> j < n \<and> survivor c (rows df) j"
    using keep_idx_survivor[OF ksn, of _ df] by (simp add: keep_def rs_def ks n_def)
  have mk_right: "\<And>j. j \<in> set keep \<Longrightarrow> acell (right_row j) ''_merge_key'' = cell (rs ! j) k"
  proof -
    fix j assume "j \<in> set keep"
    then have j: "j < n" using keep_n by simp
    have "merge_key [k] (loc_cols ([k] @ [''STAGE'', ''_score'']) (rs ! j)) = VStr (astype_str (cell (rs ! j) k))"
      using merge_key_single[OF kn(1,2)] by simp
    then show "acell (right_row j) ''_merge_key'' = cell (rs ! j) k"
      using cellk_str[OF j] by (simp add: right_row_def acell_right_row)
  qed
  \<comment> \<open>the survivor of the group is among the kept rows\<close>
  from first_max_exists[of i n "\<lambda>j. norm_key c (rows df ! j)" "\<lambda>j. record_score c (rows df ! j)"] i(1)
  obtain j0 where j0: "j0 < n" "norm_key c (rows df ! j0) = norm_key c (rows df ! i)"
    "survivor c (rows df) j0"
    unfolding survivor_iff n_def by blast
  have dupj0: "dup_mask_of c df ! j0"
  proof -
    have kt: "\<And>x. x < n \<Longrightarrow> map (key_tuple (get_keys c)) (rows (staged (get_keys c) (get_flags c) (get_funnel_priority c) df)) ! x
        = norm_key c (rows df ! x)"
      using grouping_keys[OF ksn, of "get_flags c" "get_funnel_priority c" df] by (simp add: n_def)
    have ln: "length (map (key_tuple (get_keys c)) (rows (staged (get_keys c) (get_flags c) (get_funnel_priority c) df))) = n"
      by (simp add: rows_staged n_def)
    show ?thesis
      using i(1,2) j0(1,2) kt ln unfolding dup_mask_of_def
      by (simp add: duplicated_nth)
  qed
  have j0keep: "j0 \<in> set keep"
    using keep_idx_survivor[OF ksn, of j0 df] j0 dupj0 by (simp add: keep_def rs_def ks n_def)
  have "cell (rs ! j0) k = cell (rs ! i) k"
    using cellk[OF i(1)] cellk[OF j0(1)] j0(2) by (metis list.inject)
  then have "right_row j0 \<in> set (filter (\<lambda>r. acell r ''_merge_key'' = acell l ''_merge_key'') (map right_row keep))"
    using j0keep mk_right[OF j0keep] mk_left by auto
  then have nonempty: "filter (\<lambda>r. acell r ''_merge_key'' = acell l ''_merge_key'') (map right_row keep) \<noteq> []"
    by (metis empty_iff list.set(1))
  with ml obtain r where r: "r \<in> set (filter (\<lambda>r. acell r ''_merge_key'' = acell l ''_merge_key'') (map right_row keep))"
    and mr: "m = l @ filter (\<lambda>p. fst p \<noteq> ''_merge_key'') r"
    by (cases "filter (\<lambda>r. acell r ''_merge_key'' = acell l ''_merge_key'') (map right_row keep)") auto
  from r obtain j where j: "j \<in> set keep" and rj: "r = right_row j"
    and same: "acell (right_row j) ''_merge_key'' = acell l ''_merge_key''" by auto
  from keep_n[OF j] have jn: "j < n" and js: "survivor c (rows df) j" by simp_all
  from same mk_right[OF j] mk_left have "cell (rs ! j) k = cell (rs ! i) k" by simp
  with cellk[OF i(1)] cellk[OF jn] have nk: "norm_key c (rows df ! j) = norm_key c (rows df ! i)"
    by metis
  \<comment> \<open>the cells of the merged row\<close>
  have rpart: "filter (\<lambda>p. fst p \<noteq> ''_merge_key'') (right_row j) =
      [(''STAGE_kept'', cell (rs ! j) ''STAGE''), (''_score_kept'', cell (rs ! j) ''_score'')]"
    using kn by (simp add: right_row_def loc_cols_def setitem_def getitem_def rename_kept_def)
  have lset: "set l = insert (''_merge_key'', cell (rs ! i) k)
      {(x, cell (rs ! i) x) | x. x \<in> set ([k] @ fc @ [''STAGE'', ''_score''])}"
  proof -
    have "merge_key [k] (loc_cols ([k] @ fc @ [''STAGE'', ''_score'']) (rs ! i)) = cell (rs ! i) k"
      using mk_left by (simp add: li left_row_def acell_setitem)
    then show ?thesis
      using kn fn by (auto simp: li left_row_def set_setitem set_loc_cols)
  qed
  have mset: "set m = insert (''_merge_key'', cell (rs ! i) k)
      ({(x, cell (rs ! i) x) | x. x \<in> set ([k] @ fc @ [''STAGE'', ''_score''])}
       \<union> {(''STAGE_kept'', cell (rs ! j) ''STAGE''), (''_score_kept'', cell (rs ! j) ''_score'')})"
    unfolding mr rj rpart set_append lset by auto
  have m_score_in: "(''_score'', VInt (record_score c (rows df ! i))) \<in> set m"
    unfolding mset using cells[OF i(1)] by auto
  have m_kept_in: "(''_score_kept'', VInt (record_score c (rows df ! j))) \<in> set m"
    unfolding mset using cells[OF jn] by auto
  have m_score_only: "\<And>v'. (''_score'', v') \<in> set m \<Longrightarrow> v' = VInt (record_score c (rows df ! i))"
    unfolding mset using cells[OF i(1)] by auto
  have m_kept_only: "\<And>v'. (''_score_kept'', v') \<in> set m \<Longrightarrow> v' = VInt (record_score c (rows df ! j))"
    unfolding mset using cells[OF jn] kn fn by auto
  have score: "acell m ''_score'' = VInt (record_score c (rows df ! i))"
    using m_score_in m_score_only by (intro acell_unique) force+
  have score_kept: "acell m ''_score_kept'' = VInt (record_score c (rows df ! j))"
    using m_kept_in m_kept_only by (intro acell_unique) force+
  \<comment> \<open>the survivor's score is the maximum of the group\<close>
  from js nk i(1) have le: "record_score c (rows df ! i) \<le> record_score c (rows df ! j)"
    unfolding survivor_iff n_def by force
  have isurv: "\<not> survivor c (rows df) i"
    using keep_idx_survivor[OF ksn, of i df] i by (simp add: keep_def rs_def ks n_def)
  have reason: "reason_fn m =
     (if record_score c (rows df ! i) < record_score c (rows df ! j)
      then ''duplicate: lower-priority stage'' else ''duplicate: same stage, kept first'')"
    using le by (simp add: reason_fn_def score score_kept)
  \<comment> \<open>the cells of the audit row\<close>
  have aset: "set a = {p \<in> insert (''reason'', VStr (reason_fn m)) {p \<in> set m. fst p \<noteq> ''reason''}. fst p \<in> set out}"
    by (simp add: am set_getitem set_setitem)
  have a_reason: "acell a ''reason'' = VStr (reason_fn m)"
    by (rule acell_unique) (force simp: aset out_def)+
  have a_score: "acell a ''_score'' = VInt (record_score c (rows df ! i))"
  proof (rule acell_unique)
    show "''_score'' \<in> fst ` set a" using m_score_in by (force simp: aset out_def)
  next
    fix v' assume "(''_score'', v') \<in> set a"
    then show "v' = VInt (record_score c (rows df ! i))" using m_score_only by (auto simp: aset)
  qed
  have a_kept: "acell a ''_score_kept'' = VInt (record_score c (rows df ! j))"
  proof (rule acell_unique)
    show "''_score_kept'' \<in> fst ` set a" using m_kept_in by (force simp: aset out_def)
  next
    fix v' assume "(''_score_kept'', v') \<in> set a"
    then show "v' = VInt (record_score c (rows df ! j))" using m_kept_only by (auto simp: aset)
  qed
  show ?thesis
    using i(1) jn isurv js nk a_score a_kept a_reason reason unfolding n_def by auto
qed

section \<open>The claims\<close>

subsection \<open>Survivors (C1)\<close>




subsection \<open>Stages, scores, failures, the caller's frame (C2, C3, C7, C8)\<close>


text \<open>
  Claim C2. The Derived Stage of a record is the first stage in the fixed order ENROLL,
  COMMIT, ADMIT, APPLY whose configured flag column holds the value 1 in the record, and
  no stage when there is none (in particular when no flag is configured). The
  \<open>STAGE\<close> column of the staged frame holds this value for every row; \<open>funnel_priority\<close>
  has no part in it.
\<close>

theorem derive_stage_precedence:
  "derive_stage (fl ''APPLY'') (fl ''ADMIT'') (fl ''COMMIT'') (fl ''ENROLL'') r
     = find (holds_one fl r) precedence
   \<and> map (\<lambda>r. cell r ''STAGE'') (rows (staged ks fl fp df))
     = map (\<lambda>r. stage_val (find (holds_one fl r) precedence)) (rows (strip_keys ks df))"
  using stage_of_find[of fl r] stage_column[of ks fl fp df] by (simp add: stage_of_def)










subsection \<open>Frames without duplicates (C9)\<close>






subsection \<open>Key cells of the results (C10)\<close>




subsection \<open>The audit frame under a merge-key collision (C4, C5, C6)\<close>

text \<open>
  Claim C4, evaluated on the frame \<open>colliding\<close>: four rows, two removed, and four audit
  rows. Both groups have the merge key \<open>x||y||z\<close>, so the left merge pairs each removed
  record with both survivors.
\<close>

theorem merge_key_collision_audit_rows:
  "returned (deduplicate_records colliding (Some colliding_config))
   \<and> length (rows colliding) = 4
   \<and> length (rows (deduped_of (deduplicate_records colliding (Some colliding_config)))) = 2
   \<and> length (audit_of (deduplicate_records colliding (Some colliding_config))) = 4"
  by code_simp

text \<open>
  Claim C5, evaluated on the frame \<open>colliding\<close>: the reason \<open>duplicate\<close> occurs, and the
  last audit row gives \<open>lower-priority stage\<close> for the fourth record, whose score 0 is the
  score of the survivor of its group, the third record.
\<close>

theorem merge_key_collision_reasons:
  "map (\<lambda>a. (acell a ''A'', acell a ''B'', acell a ''reason''))
     (audit_of (deduplicate_records colliding (Some colliding_config)))
     = [(VStr ''x||y'', VStr ''z'', VStr ''duplicate''),
        (VStr ''x||y'', VStr ''z'', VStr ''duplicate: lower-priority stage''),
        (VStr ''x'', VStr ''y||z'', VStr ''duplicate: same stage, kept first''),
        (VStr ''x'', VStr ''y||z'', VStr ''duplicate: lower-priority stage'')]
   \<and> filter (survivor colliding_config (rows colliding)) [0..<length (rows colliding)] = [0, 2]
   \<and> record_score colliding_config (rows colliding ! 3) = 0
   \<and> record_score colliding_config (rows colliding ! 2) = 0"
  by code_simp

text \<open>
  Claim C6, evaluated on the frame \<open>colliding\<close>: in the first audit row the removed
  record's score 1 exceeds the paired \<open>_score_kept\<close> 0, the score of the other group's
  survivor.
\<close>

theorem merge_key_collision_scores:
  "map (\<lambda>a. (acell a ''_score'', acell a ''_score_kept''))
     (audit_of (deduplicate_records colliding (Some colliding_config)))
     = [(VInt 1, VInt 0), (VInt 1, VInt 2), (VInt 0, VInt 0), (VInt 0, VInt 2)]
   \<and> map (record_score colliding_config) (rows colliding) = [2, 1, 0, 0]"
  by code_simp

end
